theory Spec2Isabelle
  imports Complex_Main "HOL-Library.Word"
begin

section \<open>The escrow registry contract (contract.algo.ts, mbr-manager)\<close>

subsection \<open>Values, errors and checked arithmetic\<close>

type_synonym uint64 = "64 word"
type_synonym bytes = "8 word list"

text \<open>
  \<open>ensure(condition, message)\<close> logs the message and fails the call. A uint64 addition
  or subtraction that leaves the range, and a read of a box that does not exist, fail the
  call without a message.
\<close>

datatype error = Err string | Panic

definition errAuth :: string where "errAuth = ''ERR:AUTH''"
definition errAppNotRegistered :: string where "errAppNotRegistered = ''ERR:404''"
definition errCredit :: string where "errCredit = ''ERR:CRD''"
definition errReceiver :: string where "errReceiver = ''ERR:RCV''"
definition errAmt :: string where "errAmt = ''ERR:AMT''"

definition add64 :: "uint64 \<Rightarrow> uint64 \<Rightarrow> error + uint64" where
  "add64 a b = (if unat a + unat b < 2 ^ 64 then Inr (a + b) else Inl Panic)"

definition sub64 :: "uint64 \<Rightarrow> uint64 \<Rightarrow> error + uint64" where
  "sub64 a b = (if b \<le> a then Inr (a - b) else Inl Panic)"

subsection \<open>Contract state\<close>

record state =
  admin :: bytes
  apps :: "bytes \<rightharpoonup> uint64 list"
  counter :: uint64
  userCredits :: "bytes \<rightharpoonup> uint64"

text \<open>The state at creation: the deployer is the admin, the counter is 0, no box exists.\<close>

definition init_state :: "bytes \<Rightarrow> state" where
  "init_state deployer =
     \<lparr>admin = deployer, apps = Map.empty, counter = 0, userCredits = Map.empty\<rparr>"

subsection \<open>Address derivation\<close>

text \<open>
  \<open>op.itob\<close>: the 8 bytes of a uint64, most significant first. The hash \<open>sha512_256\<close>
  is an opcode of the virtual machine; it is the parameter \<open>sha\<close> of everything below.
\<close>

definition itob :: "uint64 \<Rightarrow> bytes" where
  "itob w = map (\<lambda>k. ucast (drop_bit (8 * k) w)) [7, 6, 5, 4, 3, 2, 1, 0 :: nat]"

definition appID_tag :: bytes where
  "appID_tag = [0x61, 0x70, 0x70, 0x49, 0x44]"

definition deriveAddrPrefix :: "(bytes \<Rightarrow> bytes) \<Rightarrow> uint64 \<Rightarrow> bytes" where
  "deriveAddrPrefix sha appId = take 4 (sha (appID_tag @ itob appId))"

definition deriveAddr :: "(bytes \<Rightarrow> bytes) \<Rightarrow> uint64 \<Rightarrow> bytes" where
  "deriveAddr sha appId = sha (appID_tag @ itob appId)"

subsection \<open>MbrManager\<close>

text \<open>
  \<open>Global.currentApplicationAddress.minBalance\<close> is read from the ledger; inside one call
  it moves only with the contract's boxes, so it is the parameter \<open>mbr\<close>, a function of
  the contract state.
\<close>

definition manageMbrCredits ::
  "(state \<Rightarrow> uint64) \<Rightarrow> bytes \<Rightarrow> uint64 \<Rightarrow> state \<Rightarrow> error + state" where
  "manageMbrCredits mbr sender mbrBefore s =
     (let mbrAfter = mbr s in
      if mbrAfter = mbrBefore then Inr s
      else if mbrAfter > mbrBefore then
        (let creditNeeded = mbrAfter - mbrBefore;
             userCredit = (case userCredits s sender of Some v \<Rightarrow> v | None \<Rightarrow> 0) in
         if userCredit \<ge> creditNeeded
         then Inr (s\<lparr>userCredits := (userCredits s)(sender \<mapsto> userCredit - creditNeeded)\<rparr>)
         else Inl (Err errCredit))
      else
        (let creditToReturn = mbrBefore - mbrAfter in
         case userCredits s sender of
           None \<Rightarrow> Inl (Err errReceiver)
         | Some v \<Rightarrow>
             (case add64 v creditToReturn of
                Inl e \<Rightarrow> Inl e
              | Inr v' \<Rightarrow> Inr (s\<lparr>userCredits := (userCredits s)(sender \<mapsto> v')\<rparr>))))"

record PaymentTxn =
  receiver :: bytes
  amount :: uint64

definition depositCredits ::
  "(state \<Rightarrow> uint64) \<Rightarrow> bytes \<Rightarrow> bytes \<Rightarrow> bytes \<Rightarrow> PaymentTxn \<Rightarrow> state \<Rightarrow> error + state" where
  "depositCredits mbr appAddress sender creditor txn s =
     (if receiver txn \<noteq> appAddress then Inl (Err errReceiver)
      else if \<not> amount txn > 0 then Inl (Err errAmt)
      else
        (let current = (case userCredits s creditor of Some v \<Rightarrow> v | None \<Rightarrow> 0);
             mbrBefore = mbr s in
         case add64 current (amount txn) of
           Inl e \<Rightarrow> Inl e
         | Inr v \<Rightarrow>
             manageMbrCredits mbr sender mbrBefore
               (s\<lparr>userCredits := (userCredits s)(creditor \<mapsto> v)\<rparr>)))"

text \<open>\<open>withdrawCredits\<close> returns the new state and the amount of the inner payment to the sender.\<close>

definition withdrawCredits ::
  "(state \<Rightarrow> uint64) \<Rightarrow> bytes \<Rightarrow> state \<Rightarrow> error + (state \<times> uint64)" where
  "withdrawCredits mbr sender s =
     (let mbrBefore = mbr s in
      case userCredits s sender of
        None \<Rightarrow> Inl (Err errAmt)
      | Some credit \<Rightarrow>
          (let s' = s\<lparr>userCredits := (userCredits s)(sender := None)\<rparr>;
               mbrAfter = mbr s' in
           case sub64 mbrBefore mbrAfter of
             Inl e \<Rightarrow> Inl e
           | Inr d \<Rightarrow>
               (case add64 credit d of
                  Inl e \<Rightarrow> Inl e
                | Inr finalCredit \<Rightarrow> Inr (s', finalCredit))))"

subsection \<open>Escreg: registration\<close>

text \<open>The scan of \<open>appendAppId\<close>: true when the loop meets \<open>appId\<close> and returns early.\<close>

fun appendAppId_scan :: "uint64 list \<Rightarrow> uint64 \<Rightarrow> bool" where
  "appendAppId_scan [] appId = False"
| "appendAppId_scan (existingId # rest) appId =
     (if existingId = appId then True else appendAppId_scan rest appId)"

definition appendAppId :: "bytes \<Rightarrow> uint64 \<Rightarrow> state \<Rightarrow> error + state" where
  "appendAppId key appId s =
     (case apps s key of
        None \<Rightarrow> Inl Panic
      | Some existing \<Rightarrow>
          if appendAppId_scan existing appId then Inr s
          else
            (case add64 (counter s) 1 of
               Inl e \<Rightarrow> Inl e
             | Inr c \<Rightarrow> Inr (s\<lparr>apps := (apps s)(key \<mapsto> existing @ [appId]), counter := c\<rparr>)))"

text \<open>
  The body that \<open>register\<close> runs once and \<open>registerList\<close> runs for each element:
  create the box with one entry, or append to it.
\<close>

definition register_entry :: "(bytes \<Rightarrow> bytes) \<Rightarrow> uint64 \<Rightarrow> state \<Rightarrow> error + state" where
  "register_entry sha appId s =
     (let key = deriveAddrPrefix sha appId in
      if apps s key = None then
        (case add64 (counter s) 1 of
           Inl e \<Rightarrow> Inl e
         | Inr c \<Rightarrow> Inr (s\<lparr>counter := c, apps := (apps s)(key \<mapsto> [appId])\<rparr>))
      else appendAppId key appId s)"

definition register ::
  "(bytes \<Rightarrow> bytes) \<Rightarrow> (state \<Rightarrow> uint64) \<Rightarrow> bytes \<Rightarrow> uint64 \<Rightarrow> state \<Rightarrow> error + state" where
  "register sha mbr sender appId s =
     (let mbrBefore = mbr s in
      case register_entry sha appId s of
        Inl e \<Rightarrow> Inl e
      | Inr s' \<Rightarrow> manageMbrCredits mbr sender mbrBefore s')"

fun registerList_loop :: "(bytes \<Rightarrow> bytes) \<Rightarrow> uint64 list \<Rightarrow> state \<Rightarrow> error + state" where
  "registerList_loop sha [] s = Inr s"
| "registerList_loop sha (appId # rest) s =
     (case register_entry sha appId s of
        Inl e \<Rightarrow> Inl e
      | Inr s' \<Rightarrow> registerList_loop sha rest s')"

definition registerList ::
  "(bytes \<Rightarrow> bytes) \<Rightarrow> (state \<Rightarrow> uint64) \<Rightarrow> bytes \<Rightarrow> uint64 list \<Rightarrow> state \<Rightarrow> error + state" where
  "registerList sha mbr sender appIds s =
     (let mbrBefore = mbr s in
      case registerList_loop sha appIds s of
        Inl e \<Rightarrow> Inl e
      | Inr s' \<Rightarrow> manageMbrCredits mbr sender mbrBefore s')"

subsection \<open>Escreg: admin deletion\<close>

fun deleteBoxes_loop :: "bytes list \<Rightarrow> state \<Rightarrow> error + state" where
  "deleteBoxes_loop [] s = Inr s"
| "deleteBoxes_loop (key # rest) s =
     (case apps s key of
        None \<Rightarrow> deleteBoxes_loop rest s
      | Some ids \<Rightarrow>
          (case sub64 (counter s) (of_nat (length ids)) of
             Inl e \<Rightarrow> Inl e
           | Inr c \<Rightarrow> deleteBoxes_loop rest (s\<lparr>counter := c, apps := (apps s)(key := None)\<rparr>)))"

definition deleteBoxes :: "bytes \<Rightarrow> bytes list \<Rightarrow> state \<Rightarrow> error + state" where
  "deleteBoxes sender boxKeys s =
     (if sender \<noteq> admin s then Inl (Err errAuth) else deleteBoxes_loop boxKeys s)"

subsection \<open>Escreg: lookups\<close>

fun findAddr :: "(bytes \<Rightarrow> bytes) \<Rightarrow> bytes \<Rightarrow> uint64 list \<Rightarrow> uint64" where
  "findAddr sha address [] = 0"
| "findAddr sha address (a # rest) =
     (if address = deriveAddr sha a then a else findAddr sha address rest)"

definition exists_addr :: "(bytes \<Rightarrow> bytes) \<Rightarrow> state \<Rightarrow> bytes \<Rightarrow> bool" where
  "exists_addr sha s address =
     (let addr4 = take 4 address in
      case apps s addr4 of
        None \<Rightarrow> False
      | Some ids \<Rightarrow> findAddr sha address ids \<noteq> 0)"

definition get :: "(bytes \<Rightarrow> bytes) \<Rightarrow> state \<Rightarrow> bytes \<Rightarrow> uint64" where
  "get sha s address =
     (let addr4 = take 4 address in
      case apps s addr4 of
        None \<Rightarrow> 0
      | Some ids \<Rightarrow> findAddr sha address ids)"

definition mustGet :: "(bytes \<Rightarrow> bytes) \<Rightarrow> state \<Rightarrow> bytes \<Rightarrow> error + uint64" where
  "mustGet sha s address =
     (let addr4 = take 4 address in
      case apps s addr4 of
        None \<Rightarrow> Inl (Err errAppNotRegistered)
      | Some ids \<Rightarrow>
          (let matchingAppID = findAddr sha address ids in
           if matchingAppID \<noteq> 0 then Inr matchingAppID
           else Inl (Err errAppNotRegistered)))"

subsection \<open>Reachable contract states\<close>

text \<open>
  A call that fails is rolled back by the ledger, so only successful calls move the state.
  The admin's \<open>withdraw\<close>, the read-only methods and \<open>increaseBudget\<close> leave it unchanged.
\<close>

inductive reachable :: "(bytes \<Rightarrow> bytes) \<Rightarrow> (state \<Rightarrow> uint64) \<Rightarrow> bytes \<Rightarrow> state \<Rightarrow> bool"
  for sha :: "bytes \<Rightarrow> bytes" and mbr :: "state \<Rightarrow> uint64" and appAddress :: bytes where
  reach_init: "reachable sha mbr appAddress (init_state deployer)"
| reach_register:
    "reachable sha mbr appAddress s \<Longrightarrow> register sha mbr sender appId s = Inr s' \<Longrightarrow>
     reachable sha mbr appAddress s'"
| reach_registerList:
    "reachable sha mbr appAddress s \<Longrightarrow> registerList sha mbr sender appIds s = Inr s' \<Longrightarrow>
     reachable sha mbr appAddress s'"
| reach_deleteBoxes:
    "reachable sha mbr appAddress s \<Longrightarrow> deleteBoxes sender boxKeys s = Inr s' \<Longrightarrow>
     reachable sha mbr appAddress s'"
| reach_depositCredits:
    "reachable sha mbr appAddress s \<Longrightarrow>
     depositCredits mbr appAddress sender creditor txn s = Inr s' \<Longrightarrow>
     reachable sha mbr appAddress s'"
| reach_withdrawCredits:
    "reachable sha mbr appAddress s \<Longrightarrow> withdrawCredits mbr sender s = Inr (s', paid) \<Longrightarrow>
     reachable sha mbr appAddress s'"

text \<open>The sum of the lengths of all buckets.\<close>

definition bucket_total :: "state \<Rightarrow> nat" where
  "bucket_total s = (\<Sum>k \<in> dom (apps s). length (the (apps s k)))"

definition counter_inv :: "state \<Rightarrow> bool" where
  "counter_inv s \<longleftrightarrow> finite (dom (apps s)) \<and> unat (counter s) = bucket_total s"


section \<open>The off-chain SDK (ts-sdk/src/util.ts, ts-sdk/src/index.ts)\<close>

text \<open>
  JavaScript numbers that count things are \<open>nat\<close> or \<open>int\<close>, bigint identifiers are
  \<open>int\<close>. An error thrown by the SDK is a value of \<open>sdk_error\<close>:
  \<open>PersistentBatchFailure passIdx thisPassFails\<close> stands for the error
  "Pass passIdx failed with thisPassFails failures, same as previous pass".
\<close>

subsection \<open>chunk\<close>

datatype sdk_error =
    NoWriterAccount
  | ChunkSizeError
  | PersistentBatchFailure nat nat

text \<open>
  The loop of \<open>chunk\<close> from index \<open>i\<close>; \<open>array.slice(i, i + size)\<close> is
  \<open>take size (drop i array)\<close>. \<open>chunk\<close> throws before the loop when the size is
  not positive.
\<close>

function chunk_from :: "nat \<Rightarrow> 'a list \<Rightarrow> nat \<Rightarrow> 'a list list" where
  "chunk_from sz array i =
     (if 0 < sz \<and> i < length array
      then take sz (drop i array) # chunk_from sz array (i + sz)
      else [])"
  by pat_completeness auto
termination
  by (relation "measure (\<lambda>(sz, array, i). length array - i)") auto

declare chunk_from.simps [simp del]

definition chunk :: "'a list \<Rightarrow> int \<Rightarrow> sdk_error + 'a list list" where
  "chunk array sz = (if sz \<le> 0 then Inl ChunkSizeError else Inr (chunk_from (nat sz) array 0))"

subsection \<open>getIncreaseBudgetBuilder\<close>

text \<open>
  The simulation is the ledger's; what the function reads from its response are the
  arguments \<open>txnResults\<close> (for each transaction its type and its inner transactions,
  if any) and \<open>consumed\<close> (\<open>appBudgetConsumed\<close>, 0 when absent). A composer is the
  list of the calls added to it; \<open>newBuilder\<close> is what \<open>newBuilderFactory()\<close> returns.
  Of \<open>increaseBudgetArgs\<close> the fields that depend on the computation are kept; fees are
  in microAlgos. \<open>Math.ceil\<close> of the quotient is the ceiling of the real quotient.
\<close>

record 'a txnResult =
  txnType :: string
  innerTxns :: "'a list option"

record increaseBudgetArgs =
  itxns :: int
  extraFee :: int
  maxFee :: int

datatype call = RegisterListCall "int list" | IncreaseBudgetCall increaseBudgetArgs

definition increaseBudgetBaseCost :: int where "increaseBudgetBaseCost = 26"
definition increaseBudgetIncrementCost :: int where "increaseBudgetIncrementCost = 22"

definition numAppCalls :: "'a txnResult option list \<Rightarrow> int" where
  "numAppCalls txnResults =
     foldl (\<lambda>sum r. case r of
                None \<Rightarrow> sum
              | Some t \<Rightarrow>
                  if txnType t \<noteq> ''appl'' then sum
                  else sum + 1 + int (length (case innerTxns t of None \<Rightarrow> [] | Some l \<Rightarrow> l)))
       0 txnResults"

definition getIncreaseBudgetBuilder ::
  "call list \<Rightarrow> 'a txnResult option list \<Rightarrow> int option \<Rightarrow> call list option" where
  "getIncreaseBudgetBuilder newBuilder txnResults consumed =
     (let appBudgetConsumed = (case consumed of None \<Rightarrow> 0 | Some c \<Rightarrow> c);
          existingBudget = 700 * numAppCalls txnResults in
      if appBudgetConsumed \<le> existingBudget then None
      else
        (let existingBudget' = existingBudget + (700 - increaseBudgetBaseCost);
             itxnBudgetNeeded = appBudgetConsumed - existingBudget';
             n = max 0 \<lceil>real_of_int itxnBudgetNeeded
                          / real_of_int (700 - increaseBudgetIncrementCost)\<rceil> in
         Some (newBuilder @
                [IncreaseBudgetCall \<lparr>itxns = n, extraFee = n * 1000, maxFee = (n + 1) * 1000\<rparr>])))"

subsection \<open>EscregSDK.register\<close>

text \<open>
  What the orchestrator consumes from outside is a record of functions: the address of an
  application, \<open>lookup\<close> (its result as the object's entries in key order), the
  simulation of a group, the outcome of sending a group and waiting for its confirmation
  (true when confirmed; it may depend on the pass and on the position of the group in the
  pass), and the transaction ids of a group. The \<open>try\<close> block covers sending and
  confirming only. Groups are processed in order, as \<open>pMap\<close> does with concurrency 1;
  with more workers only the order of \<open>failedAppIds\<close> can differ. Box references and
  debug output are left out.
\<close>

record 'a sdk_env =
  getApplicationAddress :: "int \<Rightarrow> string"
  lookup :: "string list \<Rightarrow> (string \<times> int option) list"
  simulate :: "call list \<Rightarrow> 'a txnResult option list \<times> int option"
  sendAndConfirm :: "nat \<Rightarrow> nat \<Rightarrow> call list \<Rightarrow> bool"
  txIDs :: "call list \<Rightarrow> string list"

definition perTxn :: int where "perTxn = 7"

definition existingIndices :: "(string \<times> int option) list \<Rightarrow> nat list" where
  "existingIndices results =
     concat (map (\<lambda>(idx, v). if v \<noteq> None then [idx] else [])
                 (zip [0 ..< length results] (map snd results)))"

definition drop_existing :: "'a sdk_env \<Rightarrow> int list \<Rightarrow> int list" where
  "drop_existing env appIds =
     (let addresses = map (getApplicationAddress env) appIds;
          results = lookup env addresses;
          existing = existingIndices results in
      if existing \<noteq> []
      then map snd (filter (\<lambda>(idx, a). idx \<notin> set existing) (zip [0 ..< length appIds] appIds))
      else appIds)"

definition addRegisterListCalls :: "int list list \<Rightarrow> call list \<Rightarrow> call list" where
  "addRegisterListCalls appIdChunk builder =
     foldl (\<lambda>b appIds. b @ [RegisterListCall appIds]) builder appIdChunk"

text \<open>
  The part of the group worker that builds the group, asks
  \<open>getIncreaseBudgetBuilder\<close> and, when it returns a builder, adds the calls again to it.
\<close>

definition negotiate_group :: "'a sdk_env \<Rightarrow> int list list \<Rightarrow> call list" where
  "negotiate_group env appIdChunk =
     (let group = addRegisterListCalls appIdChunk [];
          increasedBuilder =
            (case simulate env group of
               (txnResults, consumed) \<Rightarrow> getIncreaseBudgetBuilder [] txnResults consumed) in
      case increasedBuilder of
        Some b \<Rightarrow> addRegisterListCalls appIdChunk b
      | None \<Rightarrow> group)"

type_synonym pass_acc = "nat \<times> int list \<times> string list list"

definition process_group ::
  "'a sdk_env \<Rightarrow> nat \<Rightarrow> nat \<Rightarrow> int list \<Rightarrow> pass_acc \<Rightarrow> sdk_error + pass_acc" where
  "process_group env passIdx k groupChunk acc =
     (case acc of (thisPassFails, failedAppIds, results) \<Rightarrow>
       (case chunk groupChunk perTxn of
          Inl e \<Rightarrow> Inl e
        | Inr appIdChunk \<Rightarrow>
            (let group = negotiate_group env appIdChunk in
             if sendAndConfirm env passIdx k group
             then Inr (thisPassFails, failedAppIds, results @ [txIDs env group])
             else Inr (thisPassFails + length groupChunk, failedAppIds @ groupChunk,
                       results @ [txIDs env group]))))"

fun pass_loop ::
  "'a sdk_env \<Rightarrow> nat \<Rightarrow> nat \<Rightarrow> int list list \<Rightarrow> pass_acc \<Rightarrow> sdk_error + pass_acc" where
  "pass_loop env passIdx k [] acc = Inr acc"
| "pass_loop env passIdx k (groupChunk # rest) acc =
     (case process_group env passIdx k groupChunk acc of
        Inl e \<Rightarrow> Inl e
      | Inr acc' \<Rightarrow> pass_loop env passIdx (k + 1) rest acc')"

definition run_pass :: "'a sdk_env \<Rightarrow> nat \<Rightarrow> int list \<Rightarrow> sdk_error + pass_acc" where
  "run_pass env passIdx appIds =
     (case chunk appIds (perTxn * 15) of
        Inl e \<Rightarrow> Inl e
      | Inr groupChunks \<Rightarrow> pass_loop env passIdx 0 groupChunks (0, [], []))"

text \<open>Facts about one pass that the termination of \<open>register\<close> needs.\<close>

lemma concat_chunk_from: "0 < sz \<Longrightarrow> concat (chunk_from sz xs i) = drop i xs"
proof (induction sz xs i rule: chunk_from.induct)
  case (1 sz array i)
  show ?case
  proof (cases "i < length array")
    case True
    then have "concat (chunk_from sz array i) = take sz (drop i array) @ drop (i + sz) array"
      using 1 by (simp add: chunk_from.simps[of sz array i])
    also have "\<dots> = drop i array"
      by (metis add.commute append_take_drop_id drop_drop)
    finally show ?thesis .
  next
    case False
    then show ?thesis by (simp add: chunk_from.simps[of sz array i])
  qed
qed

lemma process_group_fails:
  "process_group env p k g (t, f, r) = Inr (t', f', r') \<Longrightarrow>
     t' - t = length f' - length f \<and> t \<le> t' \<and> length f \<le> length f' \<and> length f' \<le> length f + length g"
  by (auto simp: process_group_def Let_def split: sum.splits if_splits)

lemma pass_loop_fails:
  "pass_loop env p k gs (t, f, r) = Inr (t', f', r') \<Longrightarrow> t = length f \<Longrightarrow>
     t' = length f' \<and> length f' \<le> length f + length (concat gs)"
proof (induction gs arbitrary: k t f r)
  case Nil
  then show ?case by auto
next
  case (Cons g gs)
  from Cons.prems(1) obtain t1 f1 r1 where
    step: "process_group env p k g (t, f, r) = Inr (t1, f1, r1)" and
    rest: "pass_loop env p (k + 1) gs (t1, f1, r1) = Inr (t', f', r')"
    by (auto split: sum.splits)
  from process_group_fails[OF step] Cons.prems(2)
  have t1: "t1 = length f1" and b1: "length f1 \<le> length f + length g" by auto
  from Cons.IH[OF rest t1] b1 show ?case by auto
qed

lemma run_pass_fails:
  assumes "run_pass env p appIds = Inr (t, f, r)"
  shows "t = length f \<and> length f \<le> length appIds"
proof -
  from assms have loop: "pass_loop env p 0 (chunk_from 105 appIds 0) (0, [], []) = Inr (t, f, r)"
    by (auto simp: run_pass_def chunk_def perTxn_def split: sum.splits if_splits)
  have "concat (chunk_from 105 appIds 0) = appIds"
    using concat_chunk_from[of 105 appIds 0] by simp
  with pass_loop_fails[OF loop] show ?thesis by simp
qed

lemma drop_existing_length: "length (drop_existing env appIds) \<le> length appIds"
proof -
  have "length (filter P (zip [0 ..< length appIds] appIds)) \<le> length appIds" for P
    by (rule order_trans[OF length_filter_le]) simp
  then show ?thesis by (simp add: drop_existing_def Let_def)
qed

text \<open>
  \<open>register\<close> calls itself for the retry pass. \<open>writerAccount\<close> says whether a
  writer account is set.
\<close>

function sdk_register ::
  "'a sdk_env \<Rightarrow> bool \<Rightarrow> int list \<Rightarrow> bool \<Rightarrow> nat \<Rightarrow> nat \<Rightarrow> sdk_error + string list" where
  "sdk_register env writerAccount appIds skipCheck passIdx prevPassFails =
     (if \<not> writerAccount then Inl NoWriterAccount
      else
        (let appIds' = (if \<not> skipCheck then drop_existing env appIds else appIds) in
         if appIds' = [] then Inr []
         else
           (case run_pass env passIdx appIds' of
              Inl e \<Rightarrow> Inl e
            | Inr (thisPassFails, failedAppIds, results) \<Rightarrow>
                if thisPassFails \<noteq> 0 \<and> thisPassFails = prevPassFails
                then Inl (PersistentBatchFailure passIdx thisPassFails)
                else if thisPassFails \<noteq> 0 then
                  (case sdk_register env writerAccount failedAppIds True (passIdx + 1) thisPassFails of
                     Inl e \<Rightarrow> Inl e
                   | Inr nextResults \<Rightarrow> Inr (concat (results @ [nextResults])))
                else Inr (concat results))))"
  by pat_completeness auto
termination
proof (relation "measure (\<lambda>(env, w, appIds, skipCheck, passIdx, prev).
         2 * length appIds + (if skipCheck \<and> prev = length appIds then 0 else 1))", goal_cases)
  case 1
  show ?case by simp
next
  case (2 env w appIds skipCheck passIdx prev appIds' x t y f r)
  from 2 have rp: "run_pass env passIdx appIds' = Inr (t, f, r)" by simp
  from run_pass_fails[OF rp] have tf: "t = length f" and le: "length f \<le> length appIds'" by auto
  have le2: "length appIds' \<le> length appIds"
    using 2 drop_existing_length[of env appIds] by (auto split: if_splits)
  show ?case
  proof (cases "length f < length appIds")
    case True
    then show ?thesis using tf by simp
  next
    case False
    with le le2 have eq: "length f = length appIds" "length appIds' = length appIds" by auto
    have "\<not> (skipCheck \<and> prev = length appIds)"
      using 2 tf eq by auto
    then show ?thesis using tf eq by auto
  qed
qed

declare sdk_register.simps [simp del]

subsection \<open>Derived notions for stating the properties of a pass\<close>

text \<open>
  The groups of a pass whose submission failed, the identifiers they hold (in group
  order), and the transaction ids the pass collects.
\<close>

definition group_failed :: "'a sdk_env \<Rightarrow> nat \<Rightarrow> nat \<times> int list \<Rightarrow> bool" where
  "group_failed env passIdx kg =
     (\<not> sendAndConfirm env passIdx (fst kg) (negotiate_group env (chunk_from 7 (snd kg) 0)))"

definition failed_ids :: "'a sdk_env \<Rightarrow> nat \<Rightarrow> int list \<Rightarrow> int list" where
  "failed_ids env passIdx ids =
     (let groupChunks = chunk_from 105 ids 0 in
      concat (map snd (filter (group_failed env passIdx)
                         (zip [0 ..< length groupChunks] groupChunks))))"

definition pass_txIDs :: "'a sdk_env \<Rightarrow> int list \<Rightarrow> string list list" where
  "pass_txIDs env ids =
     map (\<lambda>g. txIDs env (negotiate_group env (chunk_from 7 g 0))) (chunk_from 105 ids 0)"

text \<open>
  The number of extra sub-calls in the spec's words: the shortfall (consumed minus
  available) divided by the net contribution of one sub-call (allowance minus overhead),
  rounded up.
\<close>

definition spec_itxns :: "int \<Rightarrow> int \<Rightarrow> int" where
  "spec_itxns consumed available =
     \<lceil>real_of_int (consumed - available)
        / real_of_int (700 - increaseBudgetIncrementCost)\<rceil>"

section \<open>A concrete instance for evaluation\<close>

text \<open>
  A stand-in for the hash that keeps the eight identifier bytes and pads them to 32 bytes
  (so every identifier below \<open>2^32\<close> lands in the bucket \<open>[0, 0, 0, 0]\<close>), three
  accounts, and a storage cost that grows with the counter and with two credit boxes.
\<close>

definition demo_sha :: "bytes \<Rightarrow> bytes" where
  "demo_sha bs = drop 5 bs @ replicate 24 0"

definition alice :: bytes where "alice = 1 # replicate 31 0"
definition bob :: bytes where "bob = 2 # replicate 31 0"
definition demo_app :: bytes where "demo_app = 3 # replicate 31 0"

definition demo_mbr :: "state \<Rightarrow> uint64" where
  "demo_mbr s = 100000 + 3300 * counter s
     + (if userCredits s alice = None then 0 else 18900)
     + (if userCredits s bob = None then 0 else 18900)"

definition demo_s0 :: state where
  "demo_s0 = \<lparr>admin = alice, apps = Map.empty, counter = 0, userCredits = [alice \<mapsto> 50000]\<rparr>"

definition demo_s1 :: state where
  "demo_s1 = \<lparr>admin = alice, apps = [[0, 0, 0, 0] \<mapsto> [1002]], counter = 1,
              userCredits = [alice \<mapsto> 50000]\<rparr>"

text \<open>
  For the SDK: a simulation that reports five call-equivalents and 5000 units consumed,
  a ledger that rejects every submission, and one that rejects only the first pass.
\<close>

definition demo_results :: "unit txnResult option list" where
  "demo_results =
     [Some \<lparr>txnType = ''pay'', innerTxns = None\<rparr>,
      Some \<lparr>txnType = ''appl'', innerTxns = None\<rparr>,
      Some \<lparr>txnType = ''appl'', innerTxns = Some [(), (), ()]\<rparr>]"

definition demo_env :: "unit sdk_env" where
  "demo_env =
     \<lparr>getApplicationAddress = (\<lambda>i. ''APP''),
      lookup = (\<lambda>addresses. []),
      simulate = (\<lambda>group. (demo_results, Some 5000)),
      sendAndConfirm = (\<lambda>passIdx k group. False),
      txIDs = map (\<lambda>c. ''TX'')\<rparr>"

definition retry_env :: "unit sdk_env" where
  "retry_env = demo_env\<lparr>sendAndConfirm := (\<lambda>passIdx k group. 2 \<le> passIdx)\<rparr>"

section \<open>Properties of the registry\<close>

subsection \<open>Auxiliary facts\<close>

lemma itob_byte:
  assumes "itob a = itob b" and "k < 8"
  shows "(ucast (drop_bit (8 * k) a) :: 8 word) = ucast (drop_bit (8 * k) b)"
proof -
  have "k \<in> {0,1,2,3,4,5,6,7}" using assms(2) by auto
  then show ?thesis using assms(1) by (auto simp: itob_def)
qed

lemma itob_inj: "itob a = itob b \<Longrightarrow> a = b"
proof (rule bit_word_eqI)
  fix n assume eq: "itob a = itob b" and n: "n < LENGTH(64)"
  let ?k = "n div 8" and ?m = "n mod 8"
  have k: "?k < 8" using n by simp
  have "bit (ucast (drop_bit (8 * ?k) a) :: 8 word) ?m
          = bit (ucast (drop_bit (8 * ?k) b) :: 8 word) ?m"
    using itob_byte[OF eq k] by simp
  then show "bit a n = bit b n"
    by (simp add: bit_simps)
qed

lemma demo_sha_inj: "inj (deriveAddr demo_sha)"
  by (rule injI) (simp add: deriveAddr_def demo_sha_def appID_tag_def itob_inj)

lemma demo_addr: "deriveAddr demo_sha i = itob i @ replicate 24 0"
  by (simp add: deriveAddr_def demo_sha_def appID_tag_def)

lemma demo_prefix: "deriveAddrPrefix demo_sha i = take 4 (itob i)"
  by (simp add: deriveAddrPrefix_def demo_sha_def appID_tag_def itob_def)

lemma appendAppId_scan_iff: "appendAppId_scan xs a \<longleftrightarrow> a \<in> set xs"
  by (induction xs) auto

lemma take4_deriveAddr: "take 4 (deriveAddr sha i) = deriveAddrPrefix sha i"
  by (simp add: deriveAddr_def deriveAddrPrefix_def)

lemma manageMbrCredits_index:
  "manageMbrCredits mbr sender b s = Inr s' \<Longrightarrow>
     apps s' = apps s \<and> counter s' = counter s \<and> admin s' = admin s"
  by (auto simp: manageMbrCredits_def Let_def split: if_splits option.splits sum.splits)

lemma register_entry_bucket:
  "register_entry sha i s = Inr s' \<Longrightarrow>
     \<exists>xs. apps s' (deriveAddrPrefix sha i) = Some xs \<and> i \<in> set xs"
  by (auto simp: register_entry_def appendAppId_def Let_def appendAppId_scan_iff
           split: if_splits option.splits sum.splits)

lemma register_bucket:
  "register sha mbr sender i s = Inr s' \<Longrightarrow>
     \<exists>xs. apps s' (deriveAddrPrefix sha i) = Some xs \<and> i \<in> set xs"
  by (auto simp: register_def Let_def split: sum.splits
           dest!: register_entry_bucket manageMbrCredits_index)

lemma findAddr_member:
  "inj (deriveAddr sha) \<Longrightarrow> i \<in> set xs \<Longrightarrow> findAddr sha (deriveAddr sha i) xs = i"
  by (induction xs) (auto dest: injD)


lemma register_entry_idem:
  assumes "apps s (deriveAddrPrefix sha i) = Some xs" and "i \<in> set xs"
  shows "register_entry sha i s = Inr s"
  using assms by (simp add: register_entry_def appendAppId_def appendAppId_scan_iff)

lemma manageMbrCredits_same: "manageMbrCredits mbr sender (mbr s) s = Inr s"
  by (simp add: manageMbrCredits_def)

lemma demo_register_1002:
  "register demo_sha demo_mbr alice 1002 demo_s0 =
     Inr \<lparr>admin = alice, apps = [[0, 0, 0, 0] \<mapsto> [1002]], counter = 1,
          userCredits = [alice \<mapsto> 46700]\<rparr>"
  by (simp add: register_def register_entry_def demo_s0_def demo_prefix itob_def add64_def
        Let_def manageMbrCredits_def demo_mbr_def)

subsection \<open>Round trip\<close>

text \<open>
  Claim C1. For every identifier \<open>i\<close> and every state (reachable or not), when
  \<open>register(i)\<close> succeeds, \<open>get(deriveAddr(i))\<close> on the resulting state returns \<open>i\<close>.
  The hash is a parameter; it is assumed collision-free on identifiers, which is what
  the lookup's comparison of full addresses relies on.
\<close>

theorem register_get_roundtrip:
  assumes "inj (deriveAddr sha)" and "register sha mbr sender i s = Inr s'"
  shows "get sha s' (deriveAddr sha i) = i"
proof -
  obtain xs where "apps s' (deriveAddrPrefix sha i) = Some xs" "i \<in> set xs"
    using register_bucket[OF assms(2)] by blast
  then show ?thesis
    using assms(1) by (simp add: get_def take4_deriveAddr findAddr_member)
qed

theorem register_get_roundtrip_witness:
  "get demo_sha \<lparr>admin = alice, apps = [[0, 0, 0, 0] \<mapsto> [1002]], counter = 1,
                 userCredits = [alice \<mapsto> 46700]\<rparr> (deriveAddr demo_sha 1002) = 1002"
  using register_get_roundtrip[OF demo_sha_inj demo_register_1002] .

subsection \<open>Idempotence\<close>

text \<open>
  Claim C3. When \<open>register(i)\<close> has succeeded, a second \<open>register(i)\<close>, by any sender,
  succeeds and returns the very same state: buckets, counter and credits are unchanged.
\<close>

theorem register_twice:
  assumes "register sha mbr sender i s = Inr s'"
  shows "register sha mbr sender2 i s' = Inr s'"
proof -
  obtain xs where "apps s' (deriveAddrPrefix sha i) = Some xs" "i \<in> set xs"
    using register_bucket[OF assms] by blast
  then have "register_entry sha i s' = Inr s'" by (rule register_entry_idem)
  then show ?thesis by (simp add: register_def manageMbrCredits_same)
qed

theorem register_twice_witness:
  "register demo_sha demo_mbr bob 1002
     \<lparr>admin = alice, apps = [[0, 0, 0, 0] \<mapsto> [1002]], counter = 1,
      userCredits = [alice \<mapsto> 46700]\<rparr>
   = Inr \<lparr>admin = alice, apps = [[0, 0, 0, 0] \<mapsto> [1002]], counter = 1,
          userCredits = [alice \<mapsto> 46700]\<rparr>"
  using register_twice[OF demo_register_1002] .

subsection \<open>Negative lookup\<close>

text \<open>
  Claim C5. For an address whose first four bytes name no box, \<open>get\<close> returns 0,
  \<open>exists\<close> returns false and \<open>mustGet\<close> fails with the logged message \<open>ERR:404\<close>.
\<close>

theorem negative_lookup:
  assumes "apps s (take 4 address) = None"
  shows "get sha s address = 0 \<and> \<not> exists_addr sha s address
         \<and> mustGet sha s address = Inl (Err ''ERR:404'')"
  using assms by (simp add: get_def exists_addr_def mustGet_def errAppNotRegistered_def)

theorem negative_lookup_witness:
  "get demo_sha demo_s0 (deriveAddr demo_sha 1003) = 0
   \<and> \<not> exists_addr demo_sha demo_s0 (deriveAddr demo_sha 1003)
   \<and> mustGet demo_sha demo_s0 (deriveAddr demo_sha 1003) = Inl (Err ''ERR:404'')"
proof -
  have "apps demo_s0 (take 4 (deriveAddr demo_sha 1003)) = None"
    by (simp add: demo_s0_def)
  then show ?thesis by (rule negative_lookup)
qed

lemma add64_one: "add64 c 1 = Inr c' \<Longrightarrow> unat c' = unat c + 1"
  by (auto simp: add64_def unat_word_ariths split: if_splits)



subsection \<open>Identifier 0\<close>



lemma register_entry_keeps:
  assumes "apps s k = Some xs" and "i \<in> set xs" and "register_entry sha j s = Inr s'"
  shows "\<exists>ys. apps s' k = Some ys \<and> i \<in> set ys"
  using assms
  by (auto simp: register_entry_def appendAppId_def Let_def
           split: if_splits option.splits sum.splits)

lemma register_keeps:
  assumes "apps s k = Some xs" and "i \<in> set xs" and "register sha mbr sender j s = Inr s'"
  shows "\<exists>ys. apps s' k = Some ys \<and> i \<in> set ys"
proof -
  obtain s1 where s1: "register_entry sha j s = Inr s1"
    and m: "manageMbrCredits mbr sender (mbr s) s1 = Inr s'"
    using assms(3) by (auto simp: register_def Let_def split: sum.splits)
  from register_entry_keeps[OF assms(1,2) s1] manageMbrCredits_index[OF m]
  show ?thesis by simp
qed

lemma demo_register_1003:
  "register demo_sha demo_mbr alice 1003
     \<lparr>admin = alice, apps = [[0, 0, 0, 0] \<mapsto> [1002]], counter = 1,
      userCredits = [alice \<mapsto> 46700]\<rparr> =
     Inr \<lparr>admin = alice, apps = [[0, 0, 0, 0] \<mapsto> [1002, 1003]], counter = 2,
          userCredits = [alice \<mapsto> 43400]\<rparr>"
  by (simp add: register_def register_entry_def appendAppId_def demo_prefix itob_def add64_def
        Let_def manageMbrCredits_def demo_mbr_def)

subsection \<open>Bucket collisions\<close>

text \<open>
  Claim C2. For identifiers \<open>i\<close> and \<open>j\<close> whose derived addresses share the 4-byte
  prefix but differ as full addresses, after both are registered (from any state) they
  sit in the same bucket, \<open>get(deriveAddr(i))\<close> returns \<open>i\<close> and
  \<open>get(deriveAddr(j))\<close> returns \<open>j\<close>, never the other one. The hash is assumed
  collision-free on identifiers, so no third entry of the bucket matches either address.
\<close>

theorem collision_lookup:
  assumes "inj (deriveAddr sha)"
    and "deriveAddrPrefix sha i = deriveAddrPrefix sha j"
    and "deriveAddr sha i \<noteq> deriveAddr sha j"
    and "register sha mbr sender i s = Inr s1"
    and "register sha mbr sender2 j s1 = Inr s2"
  shows "(\<exists>xs. apps s2 (deriveAddrPrefix sha i) = Some xs \<and> i \<in> set xs \<and> j \<in> set xs)
       \<and> get sha s2 (deriveAddr sha i) = i \<and> get sha s2 (deriveAddr sha j) = j
       \<and> get sha s2 (deriveAddr sha i) \<noteq> j \<and> get sha s2 (deriveAddr sha j) \<noteq> i"
proof -
  have ne: "i \<noteq> j" using assms(3) by auto
  obtain xs where xs: "apps s1 (deriveAddrPrefix sha i) = Some xs" "i \<in> set xs"
    using register_bucket[OF assms(4)] by blast
  obtain ys where ys: "apps s2 (deriveAddrPrefix sha i) = Some ys" "i \<in> set ys"
    using register_keeps[OF xs assms(5)] by blast
  obtain zs where zs: "apps s2 (deriveAddrPrefix sha j) = Some zs" "j \<in> set zs"
    using register_bucket[OF assms(5)] by blast
  have j: "j \<in> set ys" using ys zs assms(2) by simp
  have gi: "get sha s2 (deriveAddr sha i) = i"
    using ys assms(1) by (simp add: get_def take4_deriveAddr findAddr_member)
  have gj: "get sha s2 (deriveAddr sha j) = j"
    using zs assms(1) by (simp add: get_def take4_deriveAddr findAddr_member)
  from ys j gi gj ne show ?thesis by auto
qed

theorem collision_lookup_witness:
  "deriveAddrPrefix demo_sha 1002 = deriveAddrPrefix demo_sha 1003
   \<and> deriveAddr demo_sha 1002 \<noteq> deriveAddr demo_sha 1003
   \<and> get demo_sha \<lparr>admin = alice, apps = [[0, 0, 0, 0] \<mapsto> [1002, 1003]], counter = 2,
          userCredits = [alice \<mapsto> 43400]\<rparr> (deriveAddr demo_sha 1002) = 1002
   \<and> get demo_sha \<lparr>admin = alice, apps = [[0, 0, 0, 0] \<mapsto> [1002, 1003]], counter = 2,
          userCredits = [alice \<mapsto> 43400]\<rparr> (deriveAddr demo_sha 1003) = 1003"
proof -
  have p: "deriveAddrPrefix demo_sha 1002 = deriveAddrPrefix demo_sha 1003"
    by (simp add: demo_prefix itob_def)
  have a: "deriveAddr demo_sha 1002 \<noteq> deriveAddr demo_sha 1003"
    by (simp add: demo_addr itob_def)
  from collision_lookup[OF demo_sha_inj p a demo_register_1002 demo_register_1003] p a
  show ?thesis by simp
qed


lemma bucket_total_new:
  assumes "finite (dom m)" and "m k = None"
  shows "(\<Sum>x \<in> dom (m(k \<mapsto> v)). length (the ((m(k \<mapsto> v)) x)))
           = length v + (\<Sum>x \<in> dom m. length (the (m x)))"
proof -
  have k: "k \<notin> dom m" using assms(2) by auto
  have "(\<Sum>x \<in> dom m. length (the ((m(k \<mapsto> v)) x))) = (\<Sum>x \<in> dom m. length (the (m x)))"
    by (rule sum.cong) (use k in auto)
  then show ?thesis using assms(1) k by simp
qed

lemma bucket_total_del:
  assumes "finite (dom m)" and "m k = Some v"
  shows "(\<Sum>x \<in> dom m. length (the (m x)))
           = length v + (\<Sum>x \<in> dom (m(k := None)). length (the ((m(k := None)) x)))"
proof -
  have k: "k \<in> dom m" using assms(2) by auto
  have A: "(\<Sum>x \<in> dom m. length (the (m x)))
          = length (the (m k)) + (\<Sum>x \<in> dom m - {k}. length (the (m x)))"
    by (rule sum.remove[OF assms(1) k])
  have B: "(\<Sum>x \<in> dom m - {k}. length (the (m x)))
          = (\<Sum>x \<in> dom m - {k}. length (the ((m(k := None)) x)))"
    by (rule sum.cong) auto
  have C: "dom (m(k := None)) = dom m - {k}" by simp
  have D: "length (the (m k)) = length v" by (simp only: assms(2) option.sel)
  show ?thesis unfolding C using A B D by linarith
qed

lemma bucket_total_upd:
  assumes "finite (dom m)" and "m k = Some v"
  shows "(\<Sum>x \<in> dom (m(k \<mapsto> w)). length (the ((m(k \<mapsto> w)) x))) + length v
           = length w + (\<Sum>x \<in> dom m. length (the (m x)))"
proof -
  have f: "finite (dom (m(k := None)))" using assms(1) by simp
  have n: "(m(k := None)) k = None" by simp
  have e: "(m(k := None))(k \<mapsto> w) = m(k \<mapsto> w)" by simp
  have N: "(\<Sum>x \<in> dom ((m(k := None))(k \<mapsto> w)). length (the (((m(k := None))(k \<mapsto> w)) x)))
          = length w + (\<Sum>x \<in> dom (m(k := None)). length (the ((m(k := None)) x)))"
    by (rule bucket_total_new[OF f n])
  have N': "(\<Sum>x \<in> dom (m(k \<mapsto> w)). length (the ((m(k \<mapsto> w)) x)))
          = length w + (\<Sum>x \<in> dom (m(k := None)). length (the ((m(k := None)) x)))"
    using N unfolding e .
  show ?thesis using N' bucket_total_del[OF assms] by linarith
qed


lemma counter_inv_init: "counter_inv (init_state d)"
  by (simp add: counter_inv_def init_state_def bucket_total_def)

lemma counter_inv_register_entry:
  assumes "counter_inv s" and "register_entry sha i s = Inr s'"
  shows "counter_inv s'"
proof -
  let ?k = "deriveAddrPrefix sha i"
  have fin: "finite (dom (apps s))" and cnt: "unat (counter s) = bucket_total s"
    using assms(1) by (simp_all add: counter_inv_def)
  show ?thesis
  proof (cases "apps s ?k")
    case None
    then obtain c where c: "add64 (counter s) 1 = Inr c"
      and s': "s' = s\<lparr>counter := c, apps := (apps s)(?k \<mapsto> [i])\<rparr>"
      using assms(2) by (auto simp: register_entry_def Let_def split: sum.splits)
    have a: "apps s' = (apps s)(?k \<mapsto> [i])" and cs: "counter s' = c"
      by (simp_all add: s')
    have "bucket_total s' = length [i] + bucket_total s"
      unfolding bucket_total_def a by (rule bucket_total_new[OF fin None])
    moreover have "finite (dom (apps s'))" unfolding a using fin by simp
    ultimately show ?thesis
      using add64_one[OF c] cnt cs by (simp add: counter_inv_def)
  next
    case (Some xs)
    show ?thesis
    proof (cases "i \<in> set xs")
      case True
      then have "s' = s" using assms(2) register_entry_idem[OF Some True] by simp
      then show ?thesis using assms(1) by simp
    next
      case False
      then obtain c where c: "add64 (counter s) 1 = Inr c"
        and s': "s' = s\<lparr>apps := (apps s)(?k \<mapsto> xs @ [i]), counter := c\<rparr>"
        using assms(2) Some
        by (auto simp: register_entry_def appendAppId_def appendAppId_scan_iff Let_def
                 split: sum.splits)
      have a: "apps s' = (apps s)(?k \<mapsto> xs @ [i])" and cs: "counter s' = c"
        by (simp_all add: s')
      have "bucket_total s' + length xs = length (xs @ [i]) + bucket_total s"
        unfolding bucket_total_def a by (rule bucket_total_upd[OF fin Some])
      then have "bucket_total s' = bucket_total s + 1" by simp
      moreover have "finite (dom (apps s'))" unfolding a using fin by simp
      ultimately show ?thesis
        using add64_one[OF c] cnt cs by (simp add: counter_inv_def)
    qed
  qed
qed

lemma counter_inv_index_eq:
  "counter_inv s \<Longrightarrow> apps s' = apps s \<Longrightarrow> counter s' = counter s \<Longrightarrow> counter_inv s'"
  by (simp add: counter_inv_def bucket_total_def)

lemma counter_inv_manage:
  "counter_inv s \<Longrightarrow> manageMbrCredits mbr sender b s = Inr s' \<Longrightarrow> counter_inv s'"
  by (blast intro: counter_inv_index_eq dest: manageMbrCredits_index)

lemma counter_inv_registerList_loop:
  "counter_inv s \<Longrightarrow> registerList_loop sha ids s = Inr s' \<Longrightarrow> counter_inv s'"
proof (induction ids arbitrary: s)
  case Nil
  then show ?case by simp
next
  case (Cons a ids)
  then show ?case
    by (auto split: sum.splits intro: counter_inv_register_entry)
qed

lemma sub64_unat: "sub64 a b = Inr c \<Longrightarrow> unat c = unat a - unat b \<and> unat b \<le> unat a"
  by (auto simp: sub64_def unat_sub word_le_nat_alt split: if_splits)

lemma counter_inv_deleteBoxes_loop:
  "counter_inv s \<Longrightarrow> deleteBoxes_loop ks s = Inr s' \<Longrightarrow> counter_inv s'"
proof (induction ks arbitrary: s)
  case Nil
  then show ?case by simp
next
  case (Cons k ks)
  show ?case
  proof (cases "apps s k")
    case None
    then show ?thesis using Cons by simp
  next
    case (Some ids)
    then obtain c where c: "sub64 (counter s) (of_nat (length ids)) = Inr c"
      and rest: "deleteBoxes_loop ks (s\<lparr>counter := c, apps := (apps s)(k := None)\<rparr>) = Inr s'"
      using Cons.prems(2) by (auto split: sum.splits)
    have fin: "finite (dom (apps s))" and cnt: "unat (counter s) = bucket_total s"
      using Cons.prems(1) by (simp_all add: counter_inv_def)
    let ?s1 = "s\<lparr>counter := c, apps := (apps s)(k := None)\<rparr>"
    have a: "apps ?s1 = (apps s)(k := None)" and cs: "counter ?s1 = c" by simp_all
    have tot: "bucket_total s = length ids + bucket_total ?s1"
      unfolding bucket_total_def a by (rule bucket_total_del[OF fin Some])
    then have "length ids \<le> unat (counter s)" using cnt by simp
    moreover have "unat (counter s) < 2 ^ 64" using unsigned_less[of "counter s"] by simp
    ultimately have len: "unat (of_nat (length ids) :: uint64) = length ids"
      by (simp add: unat_of_nat)
    have "unat c = bucket_total ?s1"
      using sub64_unat[OF c] len tot cnt by simp
    moreover have "finite (dom (apps ?s1))" unfolding a using fin by simp
    ultimately have "counter_inv ?s1"
      unfolding counter_inv_def cs by simp
    from Cons.IH[OF this rest] show ?thesis .
  qed
qed

lemma depositCredits_index:
  "depositCredits mbr appAddress sender creditor txn s = Inr s' \<Longrightarrow>
     apps s' = apps s \<and> counter s' = counter s"
  by (auto simp: depositCredits_def Let_def split: if_splits sum.splits
           dest!: manageMbrCredits_index)

lemma withdrawCredits_index:
  "withdrawCredits mbr sender s = Inr (s', paid) \<Longrightarrow>
     apps s' = apps s \<and> counter s' = counter s"
  by (auto simp: withdrawCredits_def Let_def split: option.splits sum.splits)

lemma reachable_counter_inv: "reachable sha mbr appAddress s \<Longrightarrow> counter_inv s"
proof (induction rule: reachable.induct)
  case (reach_init deployer)
  show ?case by (rule counter_inv_init)
next
  case (reach_register s sender appId s')
  then show ?case
    by (auto simp: register_def Let_def split: sum.splits
             intro: counter_inv_manage counter_inv_register_entry)
next
  case (reach_registerList s sender appIds s')
  then show ?case
    by (auto simp: registerList_def Let_def split: sum.splits
             intro: counter_inv_manage counter_inv_registerList_loop)
next
  case (reach_deleteBoxes s sender boxKeys s')
  then show ?case
    by (auto simp: deleteBoxes_def split: if_splits intro: counter_inv_deleteBoxes_loop)
next
  case (reach_depositCredits s sender creditor txn s')
  then show ?case
    by (blast intro: counter_inv_index_eq dest: depositCredits_index)
next
  case (reach_withdrawCredits s sender s' paid)
  then show ?case
    by (blast intro: counter_inv_index_eq dest: withdrawCredits_index)
qed

subsection \<open>Counter invariant\<close>

text \<open>
  Claim C4. In every state reached from the state at creation by successful calls of
  \<open>register\<close>, \<open>registerList\<close> and \<open>deleteBoxes\<close> (and of \<open>depositCredits\<close> and
  \<open>withdrawCredits\<close>, which registration needs), the counter equals the sum of the
  lengths of all buckets, of which there are finitely many.
\<close>

theorem counter_invariant:
  "reachable sha mbr appAddress s \<Longrightarrow>
     finite (dom (apps s)) \<and> unat (counter s) = bucket_total s"
  using reachable_counter_inv[of sha mbr appAddress s] by (simp add: counter_inv_def)

lemma demo_deposit:
  "depositCredits demo_mbr demo_app alice alice \<lparr>receiver = demo_app, amount = 68900\<rparr>
     (init_state alice) = Inr demo_s0"
  by (simp add: depositCredits_def init_state_def demo_s0_def add64_def Let_def
        manageMbrCredits_def demo_mbr_def alice_def bob_def)

lemma demo_registerList:
  "registerList demo_sha demo_mbr alice [1003, 1002, 1003]
     \<lparr>admin = alice, apps = [[0, 0, 0, 0] \<mapsto> [1002]], counter = 1,
      userCredits = [alice \<mapsto> 46700]\<rparr> =
     Inr \<lparr>admin = alice, apps = [[0, 0, 0, 0] \<mapsto> [1002, 1003]], counter = 2,
          userCredits = [alice \<mapsto> 43400]\<rparr>"
  by (simp add: registerList_def register_entry_def appendAppId_def demo_prefix itob_def add64_def
        Let_def manageMbrCredits_def demo_mbr_def)

lemma demo_deleteBoxes:
  "deleteBoxes alice [[0, 0, 0, 0], [0, 0, 0, 1]]
     \<lparr>admin = alice, apps = [[0, 0, 0, 0] \<mapsto> [1002, 1003]], counter = 2,
      userCredits = [alice \<mapsto> 43400]\<rparr> =
     Inr \<lparr>admin = alice, apps = Map.empty, counter = 0, userCredits = [alice \<mapsto> 43400]\<rparr>"
  by (simp add: deleteBoxes_def sub64_def)

theorem counter_invariant_witness:
  "bucket_total \<lparr>admin = alice, apps = [[0, 0, 0, 0] \<mapsto> [1002, 1003]], counter = 2,
          userCredits = [alice \<mapsto> 43400]\<rparr> = 2
   \<and> bucket_total \<lparr>admin = alice, apps = Map.empty, counter = 0,
          userCredits = [alice \<mapsto> 43400]\<rparr> = 0"
proof -
  have r0: "reachable demo_sha demo_mbr demo_app demo_s0"
    using reach_depositCredits[OF reach_init demo_deposit] .
  have r1: "reachable demo_sha demo_mbr demo_app
      \<lparr>admin = alice, apps = [[0, 0, 0, 0] \<mapsto> [1002]], counter = 1,
       userCredits = [alice \<mapsto> 46700]\<rparr>"
    using reach_register[OF r0 demo_register_1002] .
  have r2: "reachable demo_sha demo_mbr demo_app
      \<lparr>admin = alice, apps = [[0, 0, 0, 0] \<mapsto> [1002, 1003]], counter = 2,
       userCredits = [alice \<mapsto> 43400]\<rparr>"
    using reach_registerList[OF r1 demo_registerList] .
  have r3: "reachable demo_sha demo_mbr demo_app
      \<lparr>admin = alice, apps = Map.empty, counter = 0, userCredits = [alice \<mapsto> 43400]\<rparr>"
    using reach_deleteBoxes[OF r2 demo_deleteBoxes] .
  show ?thesis using counter_invariant[OF r2] counter_invariant[OF r3] by simp
qed

lemma sub64_guarded: "(b :: uint64) \<le> a \<Longrightarrow> unat (a - b) = unat a - unat b"
  by (simp add: unat_sub)

lemma lt_unat_sub: "(b :: uint64) < a \<Longrightarrow> unat (a - b) = unat a - unat b"
  by (simp add: unat_sub)

lemma add64_Inr: "unat a + unat b < 2 ^ 64 \<Longrightarrow> add64 a b = Inr (a + b) \<and> unat (a + b) = unat a + unat b"
  by (simp add: add64_def unat_word_ariths)

lemma add64_Inl: "2 ^ 64 \<le> unat a + unat b \<Longrightarrow> add64 a b = Inl Panic"
  by (simp add: add64_def)

subsection \<open>Settling the storage cost\<close>

text \<open>
  Claim C6. \<open>manageMbrCredits\<close>, for the sender and the cost \<open>b\<close> measured before:
  when the cost is unchanged it returns the state as it is; when the cost grew it fails
  with \<open>ERR:CRD\<close> unless the sender's balance (0 without a credit box) is at least
  the growth, and otherwise debits exactly the growth; when the cost shrank it fails with
  \<open>ERR:RCV\<close> when the sender has no credit box and otherwise credits exactly the
  difference (the checked uint64 addition fails the call beyond \<open>2^64 - 1\<close>).
\<close>

theorem manageMbrCredits_settles:
  "(mbr s = b \<longrightarrow> manageMbrCredits mbr sender b s = Inr s)
   \<and> (b < mbr s \<longrightarrow>
        (userCredits s sender = None \<longrightarrow>
           manageMbrCredits mbr sender b s = Inl (Err ''ERR:CRD''))
        \<and> (\<forall>v. userCredits s sender = Some v \<longrightarrow>
             (v < mbr s - b \<longrightarrow> manageMbrCredits mbr sender b s = Inl (Err ''ERR:CRD''))
             \<and> (mbr s - b \<le> v \<longrightarrow>
                  manageMbrCredits mbr sender b s
                    = Inr (s\<lparr>userCredits := (userCredits s)(sender \<mapsto> v - (mbr s - b))\<rparr>)
                  \<and> unat (v - (mbr s - b)) = unat v - (unat (mbr s) - unat b))))
   \<and> (mbr s < b \<longrightarrow>
        (userCredits s sender = None \<longrightarrow>
           manageMbrCredits mbr sender b s = Inl (Err ''ERR:RCV''))
        \<and> (\<forall>v. userCredits s sender = Some v \<longrightarrow>
             (unat v + (unat b - unat (mbr s)) < 2 ^ 64 \<longrightarrow>
                  manageMbrCredits mbr sender b s
                    = Inr (s\<lparr>userCredits := (userCredits s)(sender \<mapsto> v + (b - mbr s))\<rparr>)
                  \<and> unat (v + (b - mbr s)) = unat v + (unat b - unat (mbr s)))
             \<and> (2 ^ 64 \<le> unat v + (unat b - unat (mbr s)) \<longrightarrow>
                  manageMbrCredits mbr sender b s = Inl Panic)))"
proof (intro conjI impI allI)
  assume "mbr s = b"
  then show "manageMbrCredits mbr sender b s = Inr s"
    by (simp add: manageMbrCredits_def)
next
  assume g: "b < mbr s" and n: "userCredits s sender = None"
  from g have pos: "0 < mbr s - b" by (simp add: word_greater_zero_iff)
  then have "\<not> mbr s - b \<le> 0" by (simp add: word_greater_zero_iff)
  with g n show "manageMbrCredits mbr sender b s = Inl (Err ''ERR:CRD'')"
    by (auto simp: manageMbrCredits_def Let_def errCredit_def)
next
  fix v assume g: "b < mbr s" and v: "userCredits s sender = Some v" and lt: "v < mbr s - b"
  then show "manageMbrCredits mbr sender b s = Inl (Err ''ERR:CRD'')"
    by (auto simp: manageMbrCredits_def Let_def errCredit_def)
next
  fix v assume g: "b < mbr s" and v: "userCredits s sender = Some v" and le: "mbr s - b \<le> v"
  then show "manageMbrCredits mbr sender b s
               = Inr (s\<lparr>userCredits := (userCredits s)(sender \<mapsto> v - (mbr s - b))\<rparr>)"
    by (auto simp: manageMbrCredits_def Let_def)
next
  fix v assume g: "b < mbr s" and v: "userCredits s sender = Some v" and le: "mbr s - b \<le> v"
  show "unat (v - (mbr s - b)) = unat v - (unat (mbr s) - unat b)"
    using sub64_guarded[OF le] lt_unat_sub[OF g] by simp
next
  assume g: "mbr s < b" and n: "userCredits s sender = None"
  then show "manageMbrCredits mbr sender b s = Inl (Err ''ERR:RCV'')"
    by (auto simp: manageMbrCredits_def Let_def errReceiver_def)
next
  fix v assume g: "mbr s < b" and v: "userCredits s sender = Some v"
    and ok: "unat v + (unat b - unat (mbr s)) < 2 ^ 64"
  from ok have "unat v + unat (b - mbr s) < 2 ^ 64" using lt_unat_sub[OF g] by simp
  from add64_Inr[OF this] g v
  show "manageMbrCredits mbr sender b s
          = Inr (s\<lparr>userCredits := (userCredits s)(sender \<mapsto> v + (b - mbr s))\<rparr>)"
    by (auto simp: manageMbrCredits_def Let_def)
next
  fix v assume g: "mbr s < b" and v: "userCredits s sender = Some v"
    and ok: "unat v + (unat b - unat (mbr s)) < 2 ^ 64"
  from ok have "unat v + unat (b - mbr s) < 2 ^ 64" using lt_unat_sub[OF g] by simp
  from add64_Inr[OF this] lt_unat_sub[OF g]
  show "unat (v + (b - mbr s)) = unat v + (unat b - unat (mbr s))" by simp
next
  fix v assume g: "mbr s < b" and v: "userCredits s sender = Some v"
    and ov: "2 ^ 64 \<le> unat v + (unat b - unat (mbr s))"
  from ov have "2 ^ 64 \<le> unat v + unat (b - mbr s)" using lt_unat_sub[OF g] by simp
  from add64_Inl[OF this] g v
  show "manageMbrCredits mbr sender b s = Inl Panic"
    by (auto simp: manageMbrCredits_def Let_def)
qed

lemma alice_neq_bob: "alice \<noteq> bob" "bob \<noteq> alice"
  by (simp_all add: alice_def bob_def)

lemma demo_mbr_s1: "demo_mbr demo_s1 = 122200"
  by (simp add: demo_mbr_def demo_s1_def alice_neq_bob)

theorem manageMbrCredits_settles_witness:
  "manageMbrCredits demo_mbr alice 122200 demo_s1 = Inr demo_s1
   \<and> manageMbrCredits demo_mbr alice 118900 demo_s1
       = Inr (demo_s1\<lparr>userCredits := (userCredits demo_s1)(alice \<mapsto> 46700)\<rparr>)
   \<and> manageMbrCredits demo_mbr bob 118900 demo_s1 = Inl (Err ''ERR:CRD'')
   \<and> manageMbrCredits demo_mbr bob 125500 demo_s1 = Inl (Err ''ERR:RCV'')
   \<and> manageMbrCredits demo_mbr alice 125500 demo_s1
       = Inr (demo_s1\<lparr>userCredits := (userCredits demo_s1)(alice \<mapsto> 53300)\<rparr>)"
proof -
  have u: "userCredits demo_s1 alice = Some 50000" "userCredits demo_s1 bob = None"
    by (simp_all add: demo_s1_def alice_neq_bob)
  show ?thesis
    using manageMbrCredits_settles[where mbr = demo_mbr and s = demo_s1 and b = 122200 and sender = alice]
      manageMbrCredits_settles[where mbr = demo_mbr and s = demo_s1 and b = 118900 and sender = alice]
      manageMbrCredits_settles[where mbr = demo_mbr and s = demo_s1 and b = 118900 and sender = bob]
      manageMbrCredits_settles[where mbr = demo_mbr and s = demo_s1 and b = 125500 and sender = bob]
      manageMbrCredits_settles[where mbr = demo_mbr and s = demo_s1 and b = 125500 and sender = alice]
    by (simp add: demo_mbr_s1 u)
qed

subsection \<open>Deposits\<close>

text \<open>
  Claim C7, as amended. \<open>depositCredits\<close> fails with \<open>ERR:RCV\<close> when the payment's
  receiver is not the contract and with \<open>ERR:AMT\<close> when the amount is 0. Otherwise
  (the sum staying in uint64) it adds the amount to the creditor's balance, creating the
  box if absent, and settles the cost change against the sender of the call: with no
  change the state with the added amount is the result; when the cost grew and the sender
  is the creditor, the growth is debited from that same balance (\<open>ERR:CRD\<close> when the
  new balance is smaller than the growth); when the cost grew and the sender is another
  account, the growth is debited from the sender's balance (\<open>ERR:CRD\<close> when the sender
  has no box or too little) and the creditor keeps the whole amount.
\<close>

theorem depositCredits_settles:
  "(receiver txn \<noteq> appAddress \<longrightarrow>
      depositCredits mbr appAddress sender creditor txn s = Inl (Err ''ERR:RCV''))
   \<and> (receiver txn = appAddress \<and> amount txn = 0 \<longrightarrow>
      depositCredits mbr appAddress sender creditor txn s = Inl (Err ''ERR:AMT''))
   \<and> (let current = (case userCredits s creditor of Some v \<Rightarrow> v | None \<Rightarrow> 0);
           mid = s\<lparr>userCredits := (userCredits s)(creditor \<mapsto> current + amount txn)\<rparr>;
           growth = mbr mid - mbr s in
       receiver txn = appAddress \<and> amount txn \<noteq> 0
         \<and> unat current + unat (amount txn) < 2 ^ 64 \<longrightarrow>
         (mbr mid = mbr s \<longrightarrow>
            depositCredits mbr appAddress sender creditor txn s = Inr mid)
         \<and> (mbr s < mbr mid \<and> sender = creditor \<longrightarrow>
              (growth \<le> current + amount txn \<longrightarrow>
                 depositCredits mbr appAddress sender creditor txn s
                   = Inr (s\<lparr>userCredits :=
                          (userCredits s)(creditor \<mapsto> current + amount txn - growth)\<rparr>))
              \<and> (current + amount txn < growth \<longrightarrow>
                 depositCredits mbr appAddress sender creditor txn s = Inl (Err ''ERR:CRD'')))
         \<and> (mbr s < mbr mid \<and> sender \<noteq> creditor \<longrightarrow>
              (userCredits s sender = None \<longrightarrow>
                 depositCredits mbr appAddress sender creditor txn s = Inl (Err ''ERR:CRD''))
              \<and> (\<forall>b. userCredits s sender = Some b \<longrightarrow>
                   (b < growth \<longrightarrow>
                      depositCredits mbr appAddress sender creditor txn s
                        = Inl (Err ''ERR:CRD''))
                   \<and> (growth \<le> b \<longrightarrow>
                      depositCredits mbr appAddress sender creditor txn s
                        = Inr (s\<lparr>userCredits :=
                               (userCredits s)(creditor \<mapsto> current + amount txn,
                                               sender \<mapsto> b - growth)\<rparr>)))))"
proof -
  define current where "current = (case userCredits s creditor of Some v \<Rightarrow> v | None \<Rightarrow> 0)"
  define mid where "mid = s\<lparr>userCredits := (userCredits s)(creditor \<mapsto> current + amount txn)\<rparr>"
  have rcv: "receiver txn \<noteq> appAddress \<Longrightarrow>
      depositCredits mbr appAddress sender creditor txn s = Inl (Err ''ERR:RCV'')"
    by (simp add: depositCredits_def errReceiver_def)
  have amt: "receiver txn = appAddress \<and> amount txn = 0 \<Longrightarrow>
      depositCredits mbr appAddress sender creditor txn s = Inl (Err ''ERR:AMT'')"
    by (simp add: depositCredits_def errAmt_def)
  have run: "depositCredits mbr appAddress sd creditor txn s
               = manageMbrCredits mbr sd (mbr s) mid"
    if "receiver txn = appAddress" "amount txn \<noteq> 0" "unat current + unat (amount txn) < 2 ^ 64"
    for sd
    using that add64_Inr[of current "amount txn"]
    by (simp add: depositCredits_def Let_def current_def mid_def word_greater_zero_iff)
  have same: "manageMbrCredits mbr sd (mbr s) mid = Inr mid" if "mbr mid = mbr s" for sd
    using that by (simp add: manageMbrCredits_def)
  have self_ok: "manageMbrCredits mbr creditor (mbr s) mid
        = Inr (s\<lparr>userCredits := (userCredits s)(creditor \<mapsto> current + amount txn - (mbr mid - mbr s))\<rparr>)"
    if "mbr s < mbr mid" "mbr mid - mbr s \<le> current + amount txn"
    using that by (auto simp: manageMbrCredits_def Let_def mid_def)
  have self_bad: "manageMbrCredits mbr creditor (mbr s) mid = Inl (Err ''ERR:CRD'')"
    if "mbr s < mbr mid" "current + amount txn < mbr mid - mbr s"
    using that by (auto simp: manageMbrCredits_def Let_def mid_def errCredit_def)
  have pos: "\<not> mbr mid - mbr s \<le> 0" if "mbr s < mbr mid"
    using that by (simp add: word_greater_zero_iff)
  have other_none: "manageMbrCredits mbr sender (mbr s) mid = Inl (Err ''ERR:CRD'')"
    if "mbr s < mbr mid" "sender \<noteq> creditor" "userCredits s sender = None"
    using that pos by (auto simp: manageMbrCredits_def Let_def mid_def errCredit_def)
  have other_bad: "manageMbrCredits mbr sender (mbr s) mid = Inl (Err ''ERR:CRD'')"
    if "mbr s < mbr mid" "sender \<noteq> creditor" "userCredits s sender = Some b" "b < mbr mid - mbr s" for b
    using that by (auto simp: manageMbrCredits_def Let_def mid_def errCredit_def)
  have other_ok: "manageMbrCredits mbr sender (mbr s) mid
        = Inr (s\<lparr>userCredits := (userCredits s)(creditor \<mapsto> current + amount txn,
                                               sender \<mapsto> b - (mbr mid - mbr s))\<rparr>)"
    if "mbr s < mbr mid" "sender \<noteq> creditor" "userCredits s sender = Some b" "mbr mid - mbr s \<le> b" for b
    using that by (auto simp: manageMbrCredits_def Let_def mid_def)
  show ?thesis
    unfolding Let_def current_def[symmetric] mid_def[symmetric]
    by (intro conjI impI allI; (elim conjE)?;
        simp add: rcv amt run same self_ok self_bad other_none other_bad other_ok)
qed

lemma demo_mbr_init: "demo_mbr (init_state alice) = 100000"
  by (simp add: demo_mbr_def init_state_def)

lemma demo_mbr_s0: "demo_mbr demo_s0 = 118900"
  by (simp add: demo_mbr_def demo_s0_def alice_neq_bob)

theorem depositCredits_settles_witness:
  "depositCredits demo_mbr demo_app alice alice \<lparr>receiver = alice, amount = 68900\<rparr>
       (init_state alice) = Inl (Err ''ERR:RCV'')
   \<and> depositCredits demo_mbr demo_app alice alice \<lparr>receiver = demo_app, amount = 0\<rparr>
       (init_state alice) = Inl (Err ''ERR:AMT'')
   \<and> depositCredits demo_mbr demo_app alice alice \<lparr>receiver = demo_app, amount = 68900\<rparr>
       (init_state alice)
       = Inr ((init_state alice)\<lparr>userCredits := [alice \<mapsto> 50000]\<rparr>)
   \<and> depositCredits demo_mbr demo_app alice alice \<lparr>receiver = demo_app, amount = 10\<rparr>
       (init_state alice) = Inl (Err ''ERR:CRD'')
   \<and> depositCredits demo_mbr demo_app alice alice \<lparr>receiver = demo_app, amount = 1000\<rparr>
       demo_s0 = Inr (demo_s0\<lparr>userCredits := [alice \<mapsto> 51000]\<rparr>)
   \<and> depositCredits demo_mbr demo_app alice bob \<lparr>receiver = demo_app, amount = 100000\<rparr>
       demo_s0 = Inr (demo_s0\<lparr>userCredits := [alice \<mapsto> 50000, bob \<mapsto> 100000, alice \<mapsto> 31100]\<rparr>)
   \<and> depositCredits demo_mbr demo_app bob alice \<lparr>receiver = demo_app, amount = 1000\<rparr>
       (init_state alice) = Inl (Err ''ERR:CRD'')"
proof -
  have i: "userCredits (init_state alice) = Map.empty"
    by (simp add: init_state_def)
  have z: "userCredits demo_s0 = [alice \<mapsto> 50000]"
    by (simp add: demo_s0_def)
  have m: "demo_mbr ((init_state alice)\<lparr>userCredits := [alice \<mapsto> v]\<rparr>) = 118900"
          "demo_mbr (demo_s0\<lparr>userCredits := [alice \<mapsto> v]\<rparr>) = 118900"
          "demo_mbr (demo_s0\<lparr>userCredits := [alice \<mapsto> v, bob \<mapsto> w]\<rparr>) = 137800" for v w
    by (simp_all add: demo_mbr_def init_state_def demo_s0_def alice_neq_bob)
  have a: "alice \<noteq> demo_app" by (simp add: alice_def demo_app_def)
  show ?thesis
    using
      depositCredits_settles[where mbr = demo_mbr and appAddress = demo_app and sender = alice
        and creditor = alice and txn = "\<lparr>receiver = alice, amount = 68900\<rparr>"
        and s = "init_state alice"]
      depositCredits_settles[where mbr = demo_mbr and appAddress = demo_app and sender = alice
        and creditor = alice and txn = "\<lparr>receiver = demo_app, amount = 0\<rparr>"
        and s = "init_state alice"]
      depositCredits_settles[where mbr = demo_mbr and appAddress = demo_app and sender = alice
        and creditor = alice and txn = "\<lparr>receiver = demo_app, amount = 68900\<rparr>"
        and s = "init_state alice"]
      depositCredits_settles[where mbr = demo_mbr and appAddress = demo_app and sender = alice
        and creditor = alice and txn = "\<lparr>receiver = demo_app, amount = 10\<rparr>"
        and s = "init_state alice"]
      depositCredits_settles[where mbr = demo_mbr and appAddress = demo_app and sender = alice
        and creditor = alice and txn = "\<lparr>receiver = demo_app, amount = 1000\<rparr>"
        and s = demo_s0]
      depositCredits_settles[where mbr = demo_mbr and appAddress = demo_app and sender = alice
        and creditor = bob and txn = "\<lparr>receiver = demo_app, amount = 100000\<rparr>"
        and s = demo_s0]
      depositCredits_settles[where mbr = demo_mbr and appAddress = demo_app and sender = bob
        and creditor = alice and txn = "\<lparr>receiver = demo_app, amount = 1000\<rparr>"
        and s = "init_state alice"]
    by (simp add: Let_def i z m a demo_mbr_init demo_mbr_s0 alice_neq_bob)
qed

text \<open>
  Claim C7 as stated fails when the sender deposits for another account: alice, holding
  50000, deposits 100000 for bob, who has no box. The box costs 18900; bob is
  credited the whole 100000 and the 18900 are taken from alice.
\<close>

theorem deposit_for_other_counterexample:
  "userCredits demo_s0 bob = None
   \<and> userCredits demo_s0 alice = Some 50000
   \<and> demo_mbr (demo_s0\<lparr>userCredits := [alice \<mapsto> 50000, bob \<mapsto> 100000]\<rparr>) - demo_mbr demo_s0 = 18900
   \<and> depositCredits demo_mbr demo_app alice bob \<lparr>receiver = demo_app, amount = 100000\<rparr> demo_s0
       = Inr (demo_s0\<lparr>userCredits := [alice \<mapsto> 50000, bob \<mapsto> 100000, alice \<mapsto> 31100]\<rparr>)
   \<and> [alice \<mapsto> 50000, bob \<mapsto> 100000, alice \<mapsto> 31100 :: uint64] bob = Some 100000
   \<and> [alice \<mapsto> 50000, bob \<mapsto> 100000, alice \<mapsto> 31100 :: uint64] alice = Some 31100"
  by (simp add: depositCredits_def manageMbrCredits_def add64_def Let_def demo_mbr_def
        demo_s0_def demo_app_def alice_neq_bob)

section \<open>Properties of the SDK\<close>

subsection \<open>Budget negotiation\<close>

lemma ceiling_div_678: "\<lceil>real_of_int a / 678\<rceil> = - ((- a) div 678)"
  using ceiling_divide_eq_div[of a 678] by simp

lemma addRegisterListCalls_append:
  "addRegisterListCalls appIdChunk builder = builder @ map RegisterListCall appIdChunk"
  unfolding addRegisterListCalls_def
  by (induction appIdChunk arbitrary: builder) simp_all

lemma getIncreaseBudgetBuilder_None:
  assumes "(case c of None \<Rightarrow> 0 | Some v \<Rightarrow> v) \<le> 700 * numAppCalls txnResults"
  shows "getIncreaseBudgetBuilder newBuilder txnResults c = None"
  using assms by (simp add: getIncreaseBudgetBuilder_def Let_def)

lemma getIncreaseBudgetBuilder_Some:
  assumes "700 * numAppCalls txnResults < consumed"
    and "consumed = (case c of None \<Rightarrow> 0 | Some v \<Rightarrow> v)"
    and "n = max 0 (- ((700 * numAppCalls txnResults + 674 - consumed) div 678))"
  shows "getIncreaseBudgetBuilder newBuilder txnResults c =
           Some (newBuilder @
             [IncreaseBudgetCall \<lparr>itxns = n, extraFee = n * 1000, maxFee = (n + 1) * 1000\<rparr>])"
proof -
  have "- (consumed - (700 * numAppCalls txnResults + 674))
          = 700 * numAppCalls txnResults + 674 - consumed" by simp
  then show ?thesis
    using assms
    by (simp add: getIncreaseBudgetBuilder_def Let_def increaseBudgetBaseCost_def
          increaseBudgetIncrementCost_def ceiling_div_678 del: minus_diff_eq)
qed

lemma itxns_covers:
  fixes consumed available :: int
  assumes "n = max 0 (- ((available + 674 - consumed) div 678))"
  shows "0 \<le> n \<and> consumed \<le> available + 674 + 678 * n
         \<and> (0 < n \<longrightarrow> available + 674 + 678 * (n - 1) < consumed)"
  using assms by (auto simp: max_def; linarith)

lemma spec_itxns_div: "spec_itxns consumed available = - ((available - consumed) div 678)"
proof -
  have "\<lceil>real_of_int (consumed - available) / real_of_int 678\<rceil>
          = - (- (consumed - available) div 678)"
    by (rule ceiling_divide_eq_div)
  then show ?thesis
    by (simp add: spec_itxns_def increaseBudgetIncrementCost_def)
qed

lemma demo_numAppCalls: "numAppCalls demo_results = 5"
  by (simp add: numAppCalls_def demo_results_def)

text \<open>
  Claim C8, as amended. With \<open>available = 700 * numAppCalls\<close> (every application call and
  its inner calls one level deep): when the consumed budget is at most \<open>available\<close>
  the negotiator returns nothing and the group is submitted as built; otherwise exactly
  one \<open>increaseBudget(n)\<close> call is put in front of the original calls, with extra fee
  \<open>1000 * n\<close> and maximum fee \<open>1000 * (n + 1)\<close>, where \<open>n\<close> is what remains of the
  shortfall after the prepended call's own net contribution \<open>700 - 26\<close>, divided by the
  net contribution \<open>700 - 22\<close> of one sub-call, rounded up, and 0 when nothing remains:
  the least \<open>n \<ge> 0\<close> with \<open>consumed \<le> available + 674 + 678 * n\<close>.
\<close>

theorem budget_negotiation:
  "(let consumed = (case c of None \<Rightarrow> 0 | Some v \<Rightarrow> v);
        available = 700 * numAppCalls txnResults;
        original = addRegisterListCalls appIdChunk [];
        n = max 0 (- ((available + (700 - 26) - consumed) div (700 - 22)));
        budgetCall = IncreaseBudgetCall \<lparr>itxns = n, extraFee = n * 1000, maxFee = (n + 1) * 1000\<rparr>
    in (consumed \<le> available \<longrightarrow>
          getIncreaseBudgetBuilder [] txnResults c = None
          \<and> (simulate env original = (txnResults, c) \<longrightarrow>
               negotiate_group env appIdChunk = original))
     \<and> (available < consumed \<longrightarrow>
          getIncreaseBudgetBuilder [] txnResults c = Some [budgetCall]
          \<and> (simulate env original = (txnResults, c) \<longrightarrow>
               negotiate_group env appIdChunk = budgetCall # original)
          \<and> 0 \<le> n
          \<and> consumed \<le> available + (700 - 26) + (700 - 22) * n
          \<and> (0 < n \<longrightarrow> available + (700 - 26) + (700 - 22) * (n - 1) < consumed)))"
proof -
  define consumed where "consumed = (case c of None \<Rightarrow> 0 | Some v \<Rightarrow> v)"
  define available where "available = 700 * numAppCalls txnResults"
  define n where "n = max 0 (- ((available + 674 - consumed) div 678))"
  define budgetCall where
    "budgetCall = IncreaseBudgetCall \<lparr>itxns = n, extraFee = n * 1000, maxFee = (n + 1) * 1000\<rparr>"
  define original where "original = addRegisterListCalls appIdChunk []"
  have under: "getIncreaseBudgetBuilder [] txnResults c = None" if "consumed \<le> available"
    using that getIncreaseBudgetBuilder_None[of c txnResults "[]"]
    by (simp add: consumed_def available_def)
  have over: "getIncreaseBudgetBuilder [] txnResults c = Some [budgetCall]"
    if "available < consumed"
    using that getIncreaseBudgetBuilder_Some[of txnResults consumed c n "[]"]
    by (simp add: consumed_def available_def n_def budgetCall_def)
  have g1: "negotiate_group env appIdChunk = original"
    if "consumed \<le> available" "simulate env original = (txnResults, c)"
    using that under by (simp add: negotiate_group_def Let_def original_def)
  have g2: "negotiate_group env appIdChunk = budgetCall # original"
    if "available < consumed" "simulate env original = (txnResults, c)"
    using that over
    by (simp add: negotiate_group_def Let_def original_def addRegisterListCalls_append)
  have cov: "0 \<le> n \<and> consumed \<le> available + 674 + 678 * n
         \<and> (0 < n \<longrightarrow> available + 674 + 678 * (n - 1) < consumed)"
    by (rule itxns_covers) (simp add: n_def)
  have "(consumed \<le> available \<longrightarrow>
          getIncreaseBudgetBuilder [] txnResults c = None
          \<and> (simulate env original = (txnResults, c) \<longrightarrow>
               negotiate_group env appIdChunk = original))
     \<and> (available < consumed \<longrightarrow>
          getIncreaseBudgetBuilder [] txnResults c = Some [budgetCall]
          \<and> (simulate env original = (txnResults, c) \<longrightarrow>
               negotiate_group env appIdChunk = budgetCall # original)
          \<and> 0 \<le> n
          \<and> consumed \<le> available + 674 + 678 * n
          \<and> (0 < n \<longrightarrow> available + 674 + 678 * (n - 1) < consumed))"
    using under over g1 g2 cov by blast
  then show ?thesis
    by (simp add: Let_def consumed_def available_def n_def budgetCall_def original_def)
qed

theorem budget_negotiation_witness:
  "getIncreaseBudgetBuilder [] demo_results (Some 3500) = None
   \<and> getIncreaseBudgetBuilder [] demo_results (Some 5000)
       = Some [IncreaseBudgetCall \<lparr>itxns = 2, extraFee = 2000, maxFee = 3000\<rparr>]
   \<and> negotiate_group demo_env [[1003, 1004], [1005]]
       = [IncreaseBudgetCall \<lparr>itxns = 2, extraFee = 2000, maxFee = 3000\<rparr>,
          RegisterListCall [1003, 1004], RegisterListCall [1005]]"
  using budget_negotiation[where c = "Some 3500" and txnResults = demo_results
          and env = demo_env and appIdChunk = "[[1003, 1004], [1005]]"]
        budget_negotiation[where c = "Some 5000" and txnResults = demo_results
          and env = demo_env and appIdChunk = "[[1003, 1004], [1005]]"]
  by (simp add: Let_def demo_numAppCalls demo_env_def addRegisterListCalls_append)

text \<open>
  Claim C8 as stated fails: with one application call (700 available) and 701 consumed, the
  shortfall of 1 divided by 678 and rounded up is 1, but the code prepends
  \<open>increaseBudget(0)\<close>, since the prepended call itself brings \<open>700 - 26\<close>. With five
  call-equivalents and 5000 consumed the spec's count is 3 and the code's is 2.
\<close>

theorem budget_shortfall_counterexample:
  "numAppCalls [Some \<lparr>txnType = ''appl'', innerTxns = (None :: unit list option)\<rparr>] = 1
   \<and> getIncreaseBudgetBuilder [] [Some \<lparr>txnType = ''appl'', innerTxns = (None :: unit list option)\<rparr>]
        (Some 701)
       = Some [IncreaseBudgetCall \<lparr>itxns = 0, extraFee = 0, maxFee = 1000\<rparr>]
   \<and> spec_itxns 701 (700 * 1) = 1
   \<and> getIncreaseBudgetBuilder [] demo_results (Some 5000)
       = Some [IncreaseBudgetCall \<lparr>itxns = 2, extraFee = 2000, maxFee = 3000\<rparr>]
   \<and> spec_itxns 5000 (700 * numAppCalls demo_results) = 3"
  by (simp add: getIncreaseBudgetBuilder_def numAppCalls_def demo_results_def spec_itxns_div
        Let_def increaseBudgetBaseCost_def increaseBudgetIncrementCost_def ceiling_div_678)

subsection \<open>Retry passes of the orchestrator\<close>

lemma process_group_eq:
  "process_group env p k g (t, f, r) =
     Inr (if group_failed env p (k, g) then (t + length g, f @ g, r @ [txIDs env (negotiate_group env (chunk_from 7 g 0))])
          else (t, f, r @ [txIDs env (negotiate_group env (chunk_from 7 g 0))]))"
  by (simp add: process_group_def chunk_def perTxn_def group_failed_def Let_def)

lemma pass_loop_eq:
  "pass_loop env p k gs (t, f, r) =
     Inr (t + length (concat (map snd (filter (group_failed env p) (zip [k ..< k + length gs] gs)))),
          f @ concat (map snd (filter (group_failed env p) (zip [k ..< k + length gs] gs))),
          r @ map (\<lambda>g. txIDs env (negotiate_group env (chunk_from 7 g 0))) gs)"
proof (induction gs arbitrary: k t f r)
  case Nil
  show ?case by simp
next
  case (Cons g gs)
  have z: "zip [k ..< k + length (g # gs)] (g # gs) = (k, g) # zip [Suc k ..< Suc k + length gs] gs"
    by (subst upt_rec) simp
  show ?case
    unfolding z
    by (simp add: process_group_eq Cons.IH)
qed

lemma run_pass_eq:
  "run_pass env p ids = Inr (length (failed_ids env p ids), failed_ids env p ids, pass_txIDs env ids)"
  by (simp add: run_pass_def chunk_def perTxn_def pass_loop_eq failed_ids_def pass_txIDs_def Let_def)

lemma sdk_register_unfold:
  assumes "ids = (if \<not> skipCheck then drop_existing env appIds else appIds)"
  shows "sdk_register env True appIds skipCheck passIdx prev =
     (if ids = [] then Inr []
      else if failed_ids env passIdx ids \<noteq> [] \<and> length (failed_ids env passIdx ids) = prev
        then Inl (PersistentBatchFailure passIdx (length (failed_ids env passIdx ids)))
      else if failed_ids env passIdx ids \<noteq> [] then
        (case sdk_register env True (failed_ids env passIdx ids) True (passIdx + 1)
                (length (failed_ids env passIdx ids)) of
           Inl e \<Rightarrow> Inl e
         | Inr nextResults \<Rightarrow> Inr (concat (pass_txIDs env ids) @ nextResults))
      else Inr (concat (pass_txIDs env ids)))"
  by (subst sdk_register.simps) (simp add: assms Let_def run_pass_eq split: sum.splits)

lemma failed_ids_all:
  assumes "\<forall>p k g. \<not> sendAndConfirm env p k g"
  shows "failed_ids env p ids = ids"
proof -
  have "filter (group_failed env p) xs = xs" for xs
    using assms by (simp add: group_failed_def)
  then show ?thesis
    using concat_chunk_from[of 105 ids 0] by (simp add: failed_ids_def Let_def)
qed

lemma set_failed_ids: "set (failed_ids env p ids) \<subseteq> set ids"
proof -
  have "set (concat (map snd (filter P (zip ns gs)))) \<subseteq> set (concat gs)"
    for P and ns :: "nat list" and gs :: "int list list"
    by (auto dest!: set_zip_rightD)
  then have "set (failed_ids env p ids) \<subseteq> set (concat (chunk_from 105 ids 0))"
    unfolding failed_ids_def Let_def .
  also have "concat (chunk_from 105 ids 0) = ids"
    using concat_chunk_from[of 105 ids 0] by simp
  finally show ?thesis .
qed

text \<open>
  Claim C9. One pass of \<open>register\<close> over the identifiers left after the optional lookup:
  the identifiers carried to the next pass are exactly those of the groups whose
  submission failed (a subset of the pass's identifiers); when no group failed the
  collected transaction ids are returned; when the failure count is not zero and equals
  the previous pass's count the call aborts with the error naming the pass and the count;
  otherwise the failed identifiers, and only they, are retried with \<open>skipCheck\<close> set, the
  pass index incremented and the count handed on. When every submission fails, the call
  started at pass \<open>p\<close> aborts at pass \<open>p\<close> or \<open>p + 1\<close>: at most two passes. The
  function is total (its termination is proved above), so it never loops.
\<close>

theorem register_retry:
  "(let ids = (if \<not> skipCheck then drop_existing env appIds else appIds);
        failed = failed_ids env passIdx ids;
        result = sdk_register env True appIds skipCheck passIdx prevPassFails
    in set failed \<subseteq> set ids
     \<and> (ids \<noteq> [] \<and> failed = [] \<longrightarrow> result = Inr (concat (pass_txIDs env ids)))
     \<and> (ids \<noteq> [] \<and> failed \<noteq> [] \<and> length failed = prevPassFails \<longrightarrow>
          result = Inl (PersistentBatchFailure passIdx (length failed)))
     \<and> (ids \<noteq> [] \<and> failed \<noteq> [] \<and> length failed \<noteq> prevPassFails \<longrightarrow>
          result = (case sdk_register env True failed True (passIdx + 1) (length failed) of
                      Inl e \<Rightarrow> Inl e
                    | Inr nextResults \<Rightarrow> Inr (concat (pass_txIDs env ids) @ nextResults)))
     \<and> ((\<forall>p k g. \<not> sendAndConfirm env p k g) \<and> ids \<noteq> [] \<longrightarrow>
          result = Inl (PersistentBatchFailure
                         (if prevPassFails = length ids then passIdx else passIdx + 1)
                         (length ids))))"
proof -
  define ids where "ids = (if \<not> skipCheck then drop_existing env appIds else appIds)"
  define failed where "failed = failed_ids env passIdx ids"
  define result where "result = sdk_register env True appIds skipCheck passIdx prevPassFails"
  have u: "result =
     (if ids = [] then Inr []
      else if failed \<noteq> [] \<and> length failed = prevPassFails
        then Inl (PersistentBatchFailure passIdx (length failed))
      else if failed \<noteq> [] then
        (case sdk_register env True failed True (passIdx + 1) (length failed) of
           Inl e \<Rightarrow> Inl e
         | Inr nextResults \<Rightarrow> Inr (concat (pass_txIDs env ids) @ nextResults))
      else Inr (concat (pass_txIDs env ids)))"
    unfolding result_def failed_def by (rule sdk_register_unfold) (simp add: ids_def)
  have sub: "set failed \<subseteq> set ids" unfolding failed_def by (rule set_failed_ids)
  have allfail: "result = Inl (PersistentBatchFailure
                         (if prevPassFails = length ids then passIdx else passIdx + 1)
                         (length ids))"
    if af: "\<forall>p k g. \<not> sendAndConfirm env p k g" and ne: "ids \<noteq> []"
  proof -
    have f: "failed = ids" unfolding failed_def by (rule failed_ids_all[OF af])
    have f2: "failed_ids env (passIdx + 1) ids = ids" by (rule failed_ids_all[OF af])
    have second: "sdk_register env True ids True (passIdx + 1) (length ids)
                    = Inl (PersistentBatchFailure (passIdx + 1) (length ids))"
      using sdk_register_unfold[of ids True env ids "passIdx + 1" "length ids"] ne f2
      by simp
    show ?thesis using u ne second by (simp add: f)
  qed
  have "set failed \<subseteq> set ids
     \<and> (ids \<noteq> [] \<and> failed = [] \<longrightarrow> result = Inr (concat (pass_txIDs env ids)))
     \<and> (ids \<noteq> [] \<and> failed \<noteq> [] \<and> length failed = prevPassFails \<longrightarrow>
          result = Inl (PersistentBatchFailure passIdx (length failed)))
     \<and> (ids \<noteq> [] \<and> failed \<noteq> [] \<and> length failed \<noteq> prevPassFails \<longrightarrow>
          result = (case sdk_register env True failed True (passIdx + 1) (length failed) of
                      Inl e \<Rightarrow> Inl e
                    | Inr nextResults \<Rightarrow> Inr (concat (pass_txIDs env ids) @ nextResults)))
     \<and> ((\<forall>p k g. \<not> sendAndConfirm env p k g) \<and> ids \<noteq> [] \<longrightarrow>
          result = Inl (PersistentBatchFailure
                         (if prevPassFails = length ids then passIdx else passIdx + 1)
                         (length ids)))"
    using sub allfail by (simp add: u)
  then show ?thesis
    unfolding Let_def ids_def[symmetric] failed_def[symmetric] result_def[symmetric] .
qed

lemma demo_chunks:
  "chunk_from 105 [1003, 1004 :: int] 0 = [[1003, 1004]]"
  "chunk_from 7 [1003, 1004 :: int] 0 = [[1003, 1004]]"
  by (simp_all add: chunk_from.simps[of _ _ 0] chunk_from.simps[of _ _ 105]
        chunk_from.simps[of _ _ 7])

lemma demo_env_fails: "\<forall>p k g. \<not> sendAndConfirm demo_env p k g"
  by (simp add: demo_env_def)

lemma demo_drop_existing: "drop_existing demo_env appIds = appIds"
  by (simp add: drop_existing_def demo_env_def existingIndices_def)

lemma retry_failed_ids:
  "failed_ids retry_env p [1003, 1004] = (if 2 \<le> p then [] else [1003, 1004])"
  by (simp add: failed_ids_def demo_chunks group_failed_def retry_env_def demo_env_def)


lemma retry_txIDs: "pass_txIDs retry_env [1003, 1004] = [[''TX'', ''TX'']]"
  by (simp add: pass_txIDs_def demo_chunks negotiate_group_def retry_env_def demo_env_def
        getIncreaseBudgetBuilder_def demo_numAppCalls addRegisterListCalls_def Let_def)

theorem register_retry_witness:
  "sdk_register demo_env True [1003, 1004] True 1 0 = Inl (PersistentBatchFailure 2 2)
   \<and> sdk_register demo_env True [1003, 1004] False 1 0 = Inl (PersistentBatchFailure 2 2)
   \<and> sdk_register demo_env True [1003, 1004] True 1 2 = Inl (PersistentBatchFailure 1 2)
   \<and> sdk_register retry_env True [1003, 1004] True 1 0 = Inr [''TX'', ''TX'', ''TX'', ''TX'']"
proof -
  have a: "sdk_register demo_env True [1003, 1004] True 1 0 = Inl (PersistentBatchFailure 2 2)"
    using register_retry[where env = demo_env and appIds = "[1003, 1004]" and skipCheck = True
            and passIdx = 1 and prevPassFails = 0] demo_env_fails
    by (simp add: Let_def)
  have b: "sdk_register demo_env True [1003, 1004] False 1 0 = Inl (PersistentBatchFailure 2 2)"
    using register_retry[where env = demo_env and appIds = "[1003, 1004]" and skipCheck = False
            and passIdx = 1 and prevPassFails = 0] demo_env_fails
    by (simp add: Let_def demo_drop_existing)
  have c: "sdk_register demo_env True [1003, 1004] True 1 2 = Inl (PersistentBatchFailure 1 2)"
    using register_retry[where env = demo_env and appIds = "[1003, 1004]" and skipCheck = True
            and passIdx = 1 and prevPassFails = 2] demo_env_fails
    by (simp add: Let_def)
  have d2: "sdk_register retry_env True [1003, 1004] True 2 2 = Inr [''TX'', ''TX'']"
    using register_retry[where env = retry_env and appIds = "[1003, 1004]" and skipCheck = True
            and passIdx = 2 and prevPassFails = 2]
    by (simp add: Let_def retry_failed_ids retry_txIDs)
  have d2': "sdk_register retry_env True [1003, 1004] True (Suc (Suc 0)) (Suc (Suc 0))
               = Inr [''TX'', ''TX'']"
    using d2 by (simp add: numeral_2_eq_2)
  have d: "sdk_register retry_env True [1003, 1004] True 1 0 = Inr [''TX'', ''TX'', ''TX'', ''TX'']"
    using register_retry[where env = retry_env and appIds = "[1003, 1004]" and skipCheck = True
            and passIdx = 1 and prevPassFails = 0]
    by (simp add: Let_def retry_failed_ids retry_txIDs d2')
  from a b c d show ?thesis by blast
qed

end
